theory Spec2Isabelle
  imports Complex_Main "HOL-Library.Sublist" "HOL-Library.Multiset"
begin

section \<open>JavaScript string primitives used by the components\<close>

text \<open>
  Strings are lists of characters. The components only inspect ASCII characters (digits,
  letters, \<open>_\<close>, \<open>.\<close>, \<open>-\<close>, \<open>%\<close>); every other code unit is opaque to the
  functions below, exactly as a non-ASCII UTF-16 code unit is opaque to \<^verbatim>\<open>\d\<close>,
  \<^verbatim>\<open>\w\<close> and to the comparisons with ASCII literals in the source.
\<close>

definition is_digit :: "char \<Rightarrow> bool" where
  \<comment> \<open>the regular-expression class \<^verbatim>\<open>\d\<close>\<close>
  "is_digit c = (c \<in> set ''0123456789'')"

definition is_lower :: "char \<Rightarrow> bool" where
  "is_lower c = (c \<in> set ''abcdefghijklmnopqrstuvwxyz'')"

definition is_upper :: "char \<Rightarrow> bool" where
  "is_upper c = (c \<in> set ''ABCDEFGHIJKLMNOPQRSTUVWXYZ'')"

definition is_word_char :: "char \<Rightarrow> bool" where
  \<comment> \<open>the regular-expression class \<^verbatim>\<open>\w\<close>: letters, digits and the underscore\<close>
  "is_word_char c = (is_lower c \<or> is_upper c \<or> is_digit c \<or> c = CHR ''_'')"

definition upper_char :: "char \<Rightarrow> char" where
  \<comment> \<open>\<^verbatim>\<open>toUpperCase\<close> on one character of the class \<^verbatim>\<open>\w\<close>\<close>
  "upper_char c =
     (case map_of (zip ''abcdefghijklmnopqrstuvwxyz'' ''ABCDEFGHIJKLMNOPQRSTUVWXYZ'') c of
        None \<Rightarrow> c
      | Some u \<Rightarrow> u)"

definition lower_char :: "char \<Rightarrow> char" where
  "lower_char c =
     (case map_of (zip ''ABCDEFGHIJKLMNOPQRSTUVWXYZ'' ''abcdefghijklmnopqrstuvwxyz'') c of
        None \<Rightarrow> c
      | Some l \<Rightarrow> l)"

definition toLowerCase :: "string \<Rightarrow> string" where
  \<comment> \<open>on the ASCII letters; no other character has a lower case among the letters of
      \<^verbatim>\<open>pdf\<close>, \<^verbatim>\<open>docx\<close> and \<^verbatim>\<open>txt\<close>\<close>
  "toLowerCase s = map lower_char s"

definition digit_value :: "char \<Rightarrow> nat" where
  "digit_value c = of_char c - 48"

definition parseInt :: "string \<Rightarrow> nat" where
  \<comment> \<open>\<^verbatim>\<open>Number.parseInt\<close> on a string of decimal digits (the only strings the source passes):
      the decimal value. A JavaScript number holds it exactly below \<open>2^53\<close>, so for digit
      strings of at most 15 characters.\<close>
  "parseInt ds = foldl (\<lambda>acc c. 10 * acc + digit_value c) 0 ds"

fun starts_with :: "string \<Rightarrow> string \<Rightarrow> bool" where
  "starts_with s [] = True"
| "starts_with [] (p # ps) = False"
| "starts_with (c # cs) (p # ps) = (c = p \<and> starts_with cs ps)"

fun str_includes :: "string \<Rightarrow> string \<Rightarrow> bool" where
  \<comment> \<open>\<^verbatim>\<open>String.prototype.includes\<close>\<close>
  "str_includes [] p = (p = [])"
| "str_includes (c # cs) p = (starts_with (c # cs) p \<or> str_includes cs p)"

fun split_on :: "char \<Rightarrow> string \<Rightarrow> string list" where
  \<comment> \<open>\<^verbatim>\<open>String.prototype.split\<close> with a one-character separator; never the empty array\<close>
  "split_on d [] = [[]]"
| "split_on d (c # cs) =
     (if c = d then [] # split_on d cs
      else (case split_on d cs of
              [] \<Rightarrow> [[c]]
            | w # ws \<Rightarrow> (c # w) # ws))"

fun show_digits :: "nat \<Rightarrow> nat \<Rightarrow> string" where
  \<comment> \<open>the last \<open>k\<close> decimal digits of \<open>n\<close> after its leading digit\<close>
  "show_digits 0 n = []"
| "show_digits (Suc k) n =
     (if n < 10 then [] else show_digits k (n div 10)) @ [char_of (48 + n mod 10)]"

definition show_nat :: "nat \<Rightarrow> string" where
  \<comment> \<open>a number in a template literal: its decimal digits (fuel \<open>n + 1\<close> is always enough)\<close>
  "show_nat n = show_digits (Suc n) n"


section \<open>The assessment result view (assessment-result.tsx)\<close>

subsection \<open>The payload\<close>

record criterion =
  confidence :: "rat option"  \<comment> \<open>\<open>None\<close>: the criterion has no \<^verbatim>\<open>confidence\<close>\<close>
  explanation :: string

record assessment =
  qualification_rating :: "string option"
  approval_chance :: "string option"
  field_type :: "string option"
  detailed_assessment :: "(string \<times> criterion) list option"

record payload =
  status :: "string option"
  message :: "string option"
  assessment_of :: "assessment option"

text \<open>
  The source types the payload as \<^verbatim>\<open>any\<close>. The model keeps the fields the component
  reads, each optional where the source guards it with \<^verbatim>\<open>?.\<close> or \<^verbatim>\<open>||\<close>. The object
  \<^verbatim>\<open>detailed_assessment\<close> is the list of its entries in the order of \<^verbatim>\<open>Object.entries\<close>.
  A criterion's confidence is optional too: the card of a criterion reads it as
  \<^verbatim>\<open>criterion.confidence || 0\<close>. A confidence that is there is a finite number, held as a
  rational.
\<close>

subsection \<open>The approval percentage (getApprovalPercentage)\<close>

text \<open>
  The regular expression \<^verbatim>\<open>/(\d+)-(\d+)%/\<close>, matched the way a backtracking engine does:
  from each start position in turn, the first group tries the longest run of digits first
  and then every shorter one, and so does the second group.
\<close>

fun try_lengths :: "(nat \<Rightarrow> 'a option) \<Rightarrow> nat \<Rightarrow> 'a option" where
  \<comment> \<open>a greedy \<^verbatim>\<open>+\<close>: the lengths \<open>n, n - 1, ..., 1\<close> until the continuation succeeds\<close>
  "try_lengths f 0 = None"
| "try_lengths f (Suc k) = (case f (Suc k) of Some r \<Rightarrow> Some r | None \<Rightarrow> try_lengths f k)"

definition digit_run :: "string \<Rightarrow> nat" where
  "digit_run s = length (takeWhile is_digit s)"

definition match_tail :: "string \<Rightarrow> string \<Rightarrow> (string \<times> string) option" where
  \<comment> \<open>after the first group \<open>g1\<close>: the rest of the pattern, \<^verbatim>\<open>-(\d+)%\<close>\<close>
  "match_tail g1 s =
     (case s of
        [] \<Rightarrow> None
      | c # r \<Rightarrow>
          if c \<noteq> CHR ''-'' then None
          else try_lengths
                 (\<lambda>k. case drop k r of
                        [] \<Rightarrow> None
                      | p # _ \<Rightarrow> if p = CHR ''%'' then Some (g1, take k r) else None)
                 (digit_run r))"

definition match_at :: "string \<Rightarrow> (string \<times> string) option" where
  \<comment> \<open>the pattern anchored at the start of \<open>s\<close>\<close>
  "match_at s = try_lengths (\<lambda>k. match_tail (take k s) (drop k s)) (digit_run s)"

fun regex_match :: "string \<Rightarrow> (string \<times> string) option" where
  \<comment> \<open>\<^verbatim>\<open>approvalChance.match(/(\d+)-(\d+)%/)\<close>: the two groups of the leftmost match\<close>
  "regex_match [] = match_at []"
| "regex_match (c # cs) =
     (case match_at (c # cs) of Some g \<Rightarrow> Some g | None \<Rightarrow> regex_match cs)"

definition getApprovalPercentage :: "string \<Rightarrow> rat" where
  "getApprovalPercentage approvalChance =
     (case regex_match approvalChance of
        Some (mn, mx) \<Rightarrow> (of_nat (parseInt mn) + of_nat (parseInt mx)) / 2
      | None \<Rightarrow>
          if str_includes approvalChance ''High'' then 90
          else if str_includes approvalChance ''Medium'' then 60
          else if str_includes approvalChance ''Low'' then 30
          else 50)"

text \<open>What the specification calls a pattern \<^verbatim>\<open><low>-<high>%\<close> in the text.\<close>

definition digits :: "string \<Rightarrow> bool" where
  "digits ds = (ds \<noteq> [] \<and> list_all is_digit ds)"

definition occurs_at :: "string \<Rightarrow> nat \<Rightarrow> string \<Rightarrow> string \<Rightarrow> bool" where
  \<comment> \<open>at offset \<open>i\<close> of \<open>s\<close> stand the digits \<open>lo\<close>, a hyphen, the digits \<open>hi\<close> and a percent sign\<close>
  "occurs_at s i lo hi =
     (i \<le> length s \<and> digits lo \<and> digits hi \<and> prefix (lo @ ''-'' @ hi @ ''%'') (drop i s))"

subsection \<open>Display labels\<close>

fun capitalize_words :: "bool \<Rightarrow> string \<Rightarrow> string" where
  \<comment> \<open>\<^verbatim>\<open>.replace(/\b\w/g, c => c.toUpperCase())\<close>: a word character is replaced by its upper
      case when no word character stands before it; the flag says whether one does\<close>
  "capitalize_words prev [] = []"
| "capitalize_words prev (c # cs) =
     (if is_word_char c \<and> \<not> prev then upper_char c else c) # capitalize_words (is_word_char c) cs"

definition fieldType :: "string option \<Rightarrow> string" where
  \<comment> \<open>\<^verbatim>\<open>assessment.field_type?.replace(/\b\w/g, ...) || "Unknown"\<close>\<close>
  "fieldType ft =
     (case ft of
        None \<Rightarrow> ''Unknown''
      | Some s \<Rightarrow> (let shown = capitalize_words False s in if shown = [] then ''Unknown'' else shown))"

definition replace_underscores :: "string \<Rightarrow> string" where
  \<comment> \<open>\<^verbatim>\<open>.replace(/_/g, " ")\<close>\<close>
  "replace_underscores s = map (\<lambda>c. if c = CHR ''_'' then CHR '' '' else c) s"

definition fee_label :: "string \<Rightarrow> string" where
  \<comment> \<open>the labels of the fees and of the visa durations, in the same file:
      \<^verbatim>\<open>name.replace(/_/g, " ").replace(/\b\w/g, c => c.toUpperCase())\<close>\<close>
  "fee_label name = capitalize_words False (replace_underscores name)"

subsection \<open>The order of the criteria (sortedCriteria)\<close>

text \<open>
  \<^verbatim>\<open>Array.prototype.sort\<close> belongs to the language: it is stable, it reads a comparator
  result that is not a number (NaN) as 0, and with a consistent comparator its result is
  ordered by the comparator. Insertion from the right is such a sort: an element goes
  before the first element it does not come after. With a comparator that is not
  consistent the language leaves the order to the engine; the sort below is then one
  order an engine may give.
\<close>

definition sort_compare :: "('a \<Rightarrow> 'a \<Rightarrow> rat option) \<Rightarrow> 'a \<Rightarrow> 'a \<Rightarrow> rat" where
  \<comment> \<open>the comparator as the sort reads it: NaN counts as 0\<close>
  "sort_compare cmp x y = (case cmp x y of None \<Rightarrow> 0 | Some v \<Rightarrow> v)"

fun insert_cmp :: "('a \<Rightarrow> 'a \<Rightarrow> rat option) \<Rightarrow> 'a \<Rightarrow> 'a list \<Rightarrow> 'a list" where
  "insert_cmp cmp x [] = [x]"
| "insert_cmp cmp x (y # ys) =
     (if sort_compare cmp x y \<le> 0 then x # y # ys else y # insert_cmp cmp x ys)"

fun array_sort :: "('a \<Rightarrow> 'a \<Rightarrow> rat option) \<Rightarrow> 'a list \<Rightarrow> 'a list" where
  "array_sort cmp [] = []"
| "array_sort cmp (x # xs) = insert_cmp cmp x (array_sort cmp xs)"

definition by_confidence ::
  "string \<times> criterion \<Rightarrow> string \<times> criterion \<Rightarrow> rat option" where
  \<comment> \<open>\<^verbatim>\<open>(a, b) => b[1].confidence - a[1].confidence\<close>: the difference of two numbers, and NaN
      (\<open>None\<close>) when either confidence is missing\<close>
  "by_confidence a b =
     (case confidence (snd b) of
        None \<Rightarrow> None
      | Some cb \<Rightarrow> (case confidence (snd a) of None \<Rightarrow> None | Some ca \<Rightarrow> Some (cb - ca)))"

definition sortedCriteria :: "(string \<times> criterion) list \<Rightarrow> (string \<times> criterion) list" where
  "sortedCriteria detailedAssessment = array_sort by_confidence detailedAssessment"

definition card_confidence :: "criterion \<Rightarrow> rat" where
  \<comment> \<open>the confidence a criterion's card shows: \<^verbatim>\<open>criterion.confidence || 0\<close>\<close>
  "card_confidence c = (case confidence c of None \<Rightarrow> 0 | Some v \<Rightarrow> v)"

definition has_confidence :: "string \<times> criterion \<Rightarrow> bool" where
  "has_confidence e = (confidence (snd e) \<noteq> None)"

subsection \<open>The component\<close>

record results_view =
  view_rating :: string
  view_approvalChance :: string
  view_approvalPercentage :: rat
  view_fieldType :: string
  view_criteria :: "(string \<times> criterion) list"

datatype rendered =
    AnalysisFailed string  \<comment> \<open>the card "Analysis Failed" with its description\<close>
  | Results results_view
  | TypeError  \<comment> \<open>a successful payload without \<^verbatim>\<open>assessment\<close>: reading a property of undefined\<close>

definition or_default :: "string option \<Rightarrow> string \<Rightarrow> string" where
  \<comment> \<open>\<^verbatim>\<open>value || fallback\<close> on an optional string: the empty string is falsy too\<close>
  "or_default v d = (case v of None \<Rightarrow> d | Some s \<Rightarrow> if s = [] then d else s)"

definition AssessmentResult :: "payload option \<Rightarrow> rendered" where
  "AssessmentResult result =
     (case result of
        None \<Rightarrow> AnalysisFailed ''Unable to process the CV file''
      | Some r \<Rightarrow>
          if status r \<noteq> Some ''success''
          then AnalysisFailed (or_default (message r) ''Unable to process the CV file'')
          else (case assessment_of r of
                  None \<Rightarrow> TypeError
                | Some a \<Rightarrow>
                    let approvalChance = or_default (approval_chance a) ''Unknown'';
                        detailedAssessment =
                          (case detailed_assessment a of None \<Rightarrow> [] | Some d \<Rightarrow> d)
                    in Results
                         \<lparr> view_rating =
                             or_default (map_option toLowerCase (qualification_rating a)) ''unknown'',
                           view_approvalChance = approvalChance,
                           view_approvalPercentage = getApprovalPercentage approvalChance,
                           view_fieldType = fieldType (field_type a),
                           view_criteria = sortedCriteria detailedAssessment \<rparr>))"

definition rendered_criteria :: "rendered \<Rightarrow> (string \<times> criterion) list" where
  \<comment> \<open>the criterion cards on the screen, top to bottom\<close>
  "rendered_criteria v = (case v of Results r \<Rightarrow> view_criteria r | _ \<Rightarrow> [])"

definition rendered_cards :: "rendered \<Rightarrow> (string \<times> rat) list" where
  \<comment> \<open>what each card shows: the criterion's name and its confidence\<close>
  "rendered_cards v = map (\<lambda>e. (fst e, card_confidence (snd e))) (rendered_criteria v)"


section \<open>The processing notification (processing-notification.tsx)\<close>

record notification =
  isVisible :: bool  \<comment> \<open>the prop\<close>
  progress :: rat
  stage :: nat
  timer :: bool  \<comment> \<open>an interval is registered\<close>

text \<open>
  Progress is a JavaScript number; the model computes with rationals. The source's sums
  are rounded to doubles, so the tick at which a threshold is crossed can differ by one
  from the model's; the properties below compare and bound values and do not depend on
  it. States are taken after React has run the effects of a render.
\<close>

definition stages :: "(string \<times> string) list" where
  "stages =
     [(''FileSearch'', ''Extracting information from your CV...''),
      (''Clock'', ''Analyzing against O-1A criteria...''),
      (''CheckCircle'', ''Finalizing assessment...'')]"

definition totalDuration :: rat where
  "totalDuration = 120 * 1000"

definition interval :: rat where
  "interval = 500"

definition incrementAmount :: rat where
  "incrementAmount = (interval / totalDuration) * 100"

definition visibility_effect :: "notification \<Rightarrow> notification" where
  \<comment> \<open>the effect on \<^verbatim>\<open>[isVisible]\<close>\<close>
  "visibility_effect s =
     (if \<not> isVisible s then s\<lparr>progress := 0, stage := 0\<rparr> else s\<lparr>timer := True\<rparr>)"

definition cleanup :: "notification \<Rightarrow> notification" where
  \<comment> \<open>\<^verbatim>\<open>clearInterval(timer)\<close>\<close>
  "cleanup s = s\<lparr>timer := False\<rparr>"

definition stage_effect :: "notification \<Rightarrow> notification" where
  \<comment> \<open>the effect on \<^verbatim>\<open>[progress]\<close>\<close>
  "stage_effect s =
     (if progress s > 75 then s\<lparr>stage := 2\<rparr>
      else if progress s > 30 then s\<lparr>stage := 1\<rparr>
      else s)"

definition after_render :: "rat \<Rightarrow> notification \<Rightarrow> notification" where
  \<comment> \<open>the effect on \<^verbatim>\<open>[progress]\<close> runs when progress differs from the last render's\<close>
  "after_render old s = (if progress s \<noteq> old then stage_effect s else s)"

definition mount :: "bool \<Rightarrow> notification" where
  \<comment> \<open>the first render: both states start at 0 and both effects run\<close>
  "mount b =
     stage_effect (visibility_effect \<lparr>isVisible = b, progress = 0, stage = 0, timer = False\<rparr>)"

datatype notification_event = SetVisible bool | Tick

fun notification_step :: "notification_event \<Rightarrow> notification \<Rightarrow> notification" where
  "notification_step (SetVisible b) s =
     (if b = isVisible s then s
      else after_render (progress s) (visibility_effect (cleanup (s\<lparr>isVisible := b\<rparr>))))"
| "notification_step Tick s =
     (if timer s
      then after_render (progress s) (s\<lparr>progress := min (progress s + incrementAmount) 100\<rparr>)
      else s)"

definition notification_run :: "notification_event list \<Rightarrow> notification \<Rightarrow> notification" where
  "notification_run evs s = foldl (\<lambda>s e. notification_step e s) s evs"

definition notification_inv :: "notification \<Rightarrow> bool" where
  \<comment> \<open>what holds of every state the component reaches\<close>
  "notification_inv s =
     (0 \<le> progress s \<and> progress s \<le> 100
      \<and> stage s = (if 75 < progress s then 2 else if 30 < progress s then 1 else 0)
      \<and> timer s = isVisible s
      \<and> (isVisible s \<or> progress s = 0))"

datatype render_error = UndefinedStage

definition current_stage :: "notification \<Rightarrow> render_error + (string \<times> string)" where
  \<comment> \<open>\<^verbatim>\<open>stages[stage].icon\<close> and \<^verbatim>\<open>stages[stage].text\<close>: outside the array the element is undefined
      and reading its property throws\<close>
  "current_stage s = (if stage s < length stages then Inr (stages ! stage s) else Inl UndefinedStage)"


section \<open>The upload form (upload-form.tsx)\<close>

record File =
  name :: string
  content :: string

record request =
  url :: string
  cv_file :: File

record upload_form =
  file_sel :: "File option"  \<comment> \<open>the state \<^verbatim>\<open>file\<close>\<close>
  apiUrl :: string
  isLoading :: bool
  error :: "string option"
  result :: "payload option"
  inflight :: "request list"  \<comment> \<open>the requests sent by \<^verbatim>\<open>fetch\<close> that have not settled\<close>

definition initial_form :: upload_form where
  "initial_form =
     \<lparr> file_sel = None, apiUrl = ''https://09c9-38-242-232-192.ngrok-free.app'', isLoading = False,
       error = None, result = None, inflight = [] \<rparr>"

definition fileExt :: "string \<Rightarrow> string" where
  \<comment> \<open>\<^verbatim>\<open>selectedFile.name.split(".").pop()?.toLowerCase()\<close>\<close>
  "fileExt n = toLowerCase (last (split_on CHR ''.'' n))"

definition handleFileChange :: "File list \<Rightarrow> upload_form \<Rightarrow> upload_form" where
  "handleFileChange files s =
     (case files of
        [] \<Rightarrow> s
      | selectedFile # _ \<Rightarrow>
          if fileExt (name selectedFile) = [] \<or>
             fileExt (name selectedFile) \<notin> set [''pdf'', ''docx'', ''txt'']
          then s\<lparr>error := Some ''Unsupported file format. Please upload a PDF, DOCX, or TXT file.'',
                 file_sel := None\<rparr>
          else s\<lparr>file_sel := Some selectedFile, error := None, result := None\<rparr>)"

definition handleSubmit_begin :: "upload_form \<Rightarrow> upload_form" where
  \<comment> \<open>\<^verbatim>\<open>handleSubmit\<close> up to the \<^verbatim>\<open>await fetch(...)\<close>\<close>
  "handleSubmit_begin s =
     (case file_sel s of
        None \<Rightarrow> s\<lparr>error := Some ''Please select a file to upload''\<rparr>
      | Some f \<Rightarrow>
          s\<lparr>isLoading := True, error := None, result := None,
            inflight := inflight s @ [\<lparr>url = apiUrl s @ ''/api/analyze'', cv_file = f\<rparr>]\<rparr>)"

datatype body = Malformed string | Parsed "payload option"

datatype fetch_outcome =
    NetworkError string  \<comment> \<open>\<^verbatim>\<open>fetch\<close> rejects\<close>
  | Response nat body  \<comment> \<open>a status code, and what \<^verbatim>\<open>response.json()\<close> gives\<close>

definition handleSubmit_settle :: "fetch_outcome \<Rightarrow> upload_form \<Rightarrow> upload_form" where
  \<comment> \<open>\<^verbatim>\<open>handleSubmit\<close> from the \<^verbatim>\<open>await\<close> on: try, catch, finally\<close>
  "handleSubmit_settle outcome s =
     (case outcome of
        NetworkError m \<Rightarrow> s\<lparr>error := Some m, isLoading := False\<rparr>
      | Response code b \<Rightarrow>
          if \<not> (200 \<le> code \<and> code \<le> 299)
          then s\<lparr>error := Some (''API request failed with status '' @ show_nat code),
                 isLoading := False\<rparr>
          else (case b of
                  Malformed m \<Rightarrow> s\<lparr>error := Some m, isLoading := False\<rparr>
                | Parsed data \<Rightarrow> s\<lparr>result := data, isLoading := False\<rparr>))"

datatype form_event =
    FileChange "File list"  \<comment> \<open>the file input changes\<close>
  | SubmitForm  \<comment> \<open>the user submits the form\<close>
  | Settle fetch_outcome  \<comment> \<open>the oldest request settles\<close>

text \<open>
  The form's only submit button is rendered with \<^verbatim>\<open>disabled={isLoading}\<close>, and a form
  whose submit button is disabled cannot be submitted by the user (neither by a click nor
  by the Enter key): while \<open>isLoading\<close> holds, the event does not reach
  \<^verbatim>\<open>handleSubmit\<close>.
\<close>

fun form_step :: "form_event \<Rightarrow> upload_form \<Rightarrow> upload_form" where
  "form_step (FileChange files) s = handleFileChange files s"
| "form_step SubmitForm s = (if isLoading s then s else handleSubmit_begin s)"
| "form_step (Settle outcome) s =
     (case inflight s of
        [] \<Rightarrow> s
      | req # rest \<Rightarrow> handleSubmit_settle outcome (s\<lparr>inflight := rest\<rparr>))"

definition form_run :: "form_event list \<Rightarrow> upload_form \<Rightarrow> upload_form" where
  "form_run evs s = foldl (\<lambda>s e. form_step e s) s evs"

text \<open>
  The form shows the result through the result view. A result whose view is \<open>TypeError\<close>
  takes the page down with it; the runs below that show a result use one that renders.
\<close>

definition result_view :: "upload_form \<Rightarrow> rendered option" where
  \<comment> \<open>\<^verbatim>\<open>{result && <AssessmentResult result={result} />}\<close>: what the form shows of the result\<close>
  "result_view s = (case result s of None \<Rightarrow> None | Some r \<Rightarrow> Some (AssessmentResult (Some r)))"

definition form_inv :: "upload_form \<Rightarrow> bool" where
  \<comment> \<open>what holds of every state the form reaches\<close>
  "form_inv s = (length (inflight s) \<le> 1 \<and> isLoading s = (inflight s \<noteq> []))"


section \<open>Sample inputs\<close>

abbreviation a_pdf :: File where
  "a_pdf \<equiv> \<lparr>name = ''a.pdf'', content = ''A''\<rparr>"

abbreviation b_pdf :: File where
  "b_pdf \<equiv> \<lparr>name = ''b.pdf'', content = ''B''\<rparr>"

abbreviation awards :: "string \<times> criterion" where
  "awards \<equiv> (''Awards'', \<lparr>confidence = Some (9 / 10), explanation = ''Two national prizes''\<rparr>)"

abbreviation assessment_of_a :: payload where
  \<comment> \<open>a successful payload that the result view renders\<close>
  "assessment_of_a \<equiv>
     \<lparr>status = Some ''success'', message = None,
      assessment_of =
        Some \<lparr>qualification_rating = Some ''High'', approval_chance = Some ''High'',
              field_type = Some ''stem'', detailed_assessment = Some [awards]\<rparr>\<rparr>"

abbreviation view_of_a :: rendered where
  "view_of_a \<equiv>
     Results \<lparr>view_rating = ''high'', view_approvalChance = ''High'',
              view_approvalPercentage = 90, view_fieldType = ''Stem'',
              view_criteria = [awards]\<rparr>"


section \<open>Properties\<close>

subsection \<open>The regular expression finds the leftmost pattern\<close>

lemma try_lengths_Some:
  "try_lengths f n = Some r \<Longrightarrow> \<exists>k. 0 < k \<and> k \<le> n \<and> f k = Some r"
proof (induction n)
  case 0
  then show ?case by simp
next
  case (Suc n)
  show ?case
  proof (cases "f (Suc n)")
    case None
    with Suc.prems have "try_lengths f n = Some r" by simp
    with Suc.IH obtain k where "0 < k" "k \<le> n" "f k = Some r" by blast
    then show ?thesis by (intro exI[of _ k]) simp
  next
    case (Some a)
    with Suc.prems have "a = r" by simp
    with Some show ?thesis by (intro exI[of _ "Suc n"]) simp
  qed
qed

lemma try_lengths_top: "0 < n \<Longrightarrow> f n = Some r \<Longrightarrow> try_lengths f n = Some r"
  by (cases n) simp_all

lemma not_digit_minus: "\<not> is_digit CHR ''-''"
  by (simp add: is_digit_def)

lemma not_digit_percent: "\<not> is_digit CHR ''%''"
  by (simp add: is_digit_def)

lemma digit_run_stop:
  "list_all is_digit ds \<Longrightarrow> \<not> is_digit c \<Longrightarrow> digit_run (ds @ c # rest) = length ds"
  by (induction ds) (simp_all add: digit_run_def)

lemma take_digit_run: "k \<le> digit_run s \<Longrightarrow> list_all is_digit (take k s)"
proof (induction s arbitrary: k)
  case Nil
  then show ?case by simp
next
  case (Cons c s)
  show ?case
  proof (cases k)
    case 0
    then show ?thesis by simp
  next
    case (Suc j)
    with Cons.prems have c: "is_digit c" and j: "j \<le> digit_run s"
      by (auto simp: digit_run_def split: if_splits)
    from Cons.IH[OF j] c Suc show ?thesis by simp
  qed
qed

lemma digit_run_le_length: "digit_run s \<le> length s"
  by (simp add: digit_run_def length_takeWhile_le)

lemma match_at_complete:
  assumes lo: "digits lo" and hi: "digits hi"
  shows "match_at (lo @ ''-'' @ hi @ ''%'' @ post) = Some (lo, hi)"
proof -
  let ?r = "hi @ CHR ''%'' # post"
  let ?s = "lo @ CHR ''-'' # ?r"
  have run_s: "digit_run ?s = length lo"
    using lo by (simp add: digits_def digit_run_stop not_digit_minus)
  have run_r: "digit_run ?r = length hi"
    using hi by (simp add: digits_def digit_run_stop not_digit_percent)
  have tail: "match_tail lo (CHR ''-'' # ?r) = Some (lo, hi)"
    unfolding match_tail_def using hi
    by (simp add: run_r digits_def try_lengths_top)
  have "try_lengths (\<lambda>k. match_tail (take k ?s) (drop k ?s)) (length lo) = Some (lo, hi)"
    using lo tail by (intro try_lengths_top) (simp_all add: digits_def)
  then show ?thesis by (simp add: match_at_def run_s)
qed

lemma match_at_sound:
  assumes "match_at s = Some (lo, hi)"
  shows "digits lo \<and> digits hi \<and> (\<exists>post. s = lo @ ''-'' @ hi @ ''%'' @ post)"
proof -
  from assms obtain k where k: "0 < k" "k \<le> digit_run s"
    and t: "match_tail (take k s) (drop k s) = Some (lo, hi)"
    unfolding match_at_def by (blast dest: try_lengths_Some)
  from t obtain r where r: "drop k s = CHR ''-'' # r"
    and t2: "try_lengths
               (\<lambda>j. case drop j r of [] \<Rightarrow> None
                    | p # _ \<Rightarrow> if p = CHR ''%'' then Some (take k s, take j r) else None)
               (digit_run r) = Some (lo, hi)"
    unfolding match_tail_def by (auto split: list.splits if_splits)
  from try_lengths_Some[OF t2] obtain j where j: "0 < j" "j \<le> digit_run r"
    and g: "(case drop j r of [] \<Rightarrow> None
            | p # _ \<Rightarrow> if p = CHR ''%'' then Some (take k s, take j r) else None) = Some (lo, hi)"
    by blast
  from g obtain post where post: "drop j r = CHR ''%'' # post"
    and lo: "lo = take k s" and hi: "hi = take j r"
    by (auto split: list.splits if_splits)
  have klen: "k \<le> length s" using k digit_run_le_length[of s] by simp
  have jlen: "j \<le> length r" using j digit_run_le_length[of r] by simp
  have "digits lo"
    using k klen take_digit_run[of k s] by (auto simp: digits_def lo)
  moreover have "digits hi"
    using j jlen take_digit_run[of j r] by (auto simp: digits_def hi)
  moreover have "s = lo @ ''-'' @ hi @ ''%'' @ post"
  proof -
    have "s = take k s @ drop k s" by simp
    also have "drop k s = CHR ''-'' # (take j r @ drop j r)" using r by simp
    finally show ?thesis using post lo hi by simp
  qed
  ultimately show ?thesis by blast
qed

lemma match_at_iff:
  "match_at s = Some (lo, hi) \<longleftrightarrow> digits lo \<and> digits hi \<and> prefix (lo @ ''-'' @ hi @ ''%'') s"
proof
  assume "match_at s = Some (lo, hi)"
  from match_at_sound[OF this] show "digits lo \<and> digits hi \<and> prefix (lo @ ''-'' @ hi @ ''%'') s"
    by (auto simp: prefix_def)
next
  assume a: "digits lo \<and> digits hi \<and> prefix (lo @ ''-'' @ hi @ ''%'') s"
  then obtain post where "s = lo @ ''-'' @ hi @ ''%'' @ post"
    by (auto simp: prefix_def)
  with a match_at_complete[of lo hi post] show "match_at s = Some (lo, hi)" by simp
qed

lemma regex_match_None:
  "regex_match s = None \<longleftrightarrow> (\<forall>i\<le>length s. match_at (drop i s) = None)"
proof (induction s)
  case Nil
  then show ?case by simp
next
  case (Cons c cs)
  show ?case
  proof
    assume n: "regex_match (c # cs) = None"
    then have h: "match_at (c # cs) = None" and t: "regex_match cs = None"
      by (auto split: option.splits)
    show "\<forall>i\<le>length (c # cs). match_at (drop i (c # cs)) = None"
    proof (intro allI impI)
      fix i assume "i \<le> length (c # cs)"
      then show "match_at (drop i (c # cs)) = None"
        using h t Cons.IH by (cases i) auto
    qed
  next
    assume a: "\<forall>i\<le>length (c # cs). match_at (drop i (c # cs)) = None"
    then have "match_at (drop 0 (c # cs)) = None" by blast
    moreover have "\<forall>i\<le>length cs. match_at (drop i cs) = None"
    proof (intro allI impI)
      fix i assume "i \<le> length cs"
      then have "Suc i \<le> length (c # cs)" by simp
      with a have "match_at (drop (Suc i) (c # cs)) = None" by blast
      then show "match_at (drop i cs) = None" by simp
    qed
    ultimately show "regex_match (c # cs) = None" using Cons.IH by simp
  qed
qed

lemma regex_match_Some:
  "regex_match s = Some g \<longleftrightarrow>
     (\<exists>i\<le>length s. match_at (drop i s) = Some g \<and> (\<forall>j<i. match_at (drop j s) = None))"
proof (induction s)
  case Nil
  then show ?case by simp
next
  case (Cons c cs)
  show ?case
  proof (cases "match_at (c # cs)")
    case (Some a)
    show ?thesis
    proof
      assume "regex_match (c # cs) = Some g"
      with Some have "a = g" by simp
      with Some show "\<exists>i\<le>length (c # cs). match_at (drop i (c # cs)) = Some g \<and>
          (\<forall>j<i. match_at (drop j (c # cs)) = None)"
        by (intro exI[of _ 0]) simp
    next
      assume "\<exists>i\<le>length (c # cs). match_at (drop i (c # cs)) = Some g \<and>
          (\<forall>j<i. match_at (drop j (c # cs)) = None)"
      then obtain i where i: "match_at (drop i (c # cs)) = Some g"
        and first: "\<forall>j<i. match_at (drop j (c # cs)) = None" by blast
      have "i = 0"
      proof (rule ccontr)
        assume "i \<noteq> 0"
        then have "0 < i" by simp
        with first have "match_at (drop 0 (c # cs)) = None" by blast
        with Some show False by simp
      qed
      with i Some show "regex_match (c # cs) = Some g" by simp
    qed
  next
    case None
    then have eq: "regex_match (c # cs) = regex_match cs" by simp
    show ?thesis
    proof
      assume "regex_match (c # cs) = Some g"
      with eq Cons.IH obtain i where i: "i \<le> length cs" "match_at (drop i cs) = Some g"
        and first: "\<forall>j<i. match_at (drop j cs) = None" by auto
      have "\<forall>j<Suc i. match_at (drop j (c # cs)) = None"
      proof (intro allI impI)
        fix j assume "j < Suc i"
        then show "match_at (drop j (c # cs)) = None"
          using None first by (cases j) auto
      qed
      with i show "\<exists>i\<le>length (c # cs). match_at (drop i (c # cs)) = Some g \<and>
          (\<forall>j<i. match_at (drop j (c # cs)) = None)"
        by (intro exI[of _ "Suc i"]) simp
    next
      assume "\<exists>i\<le>length (c # cs). match_at (drop i (c # cs)) = Some g \<and>
          (\<forall>j<i. match_at (drop j (c # cs)) = None)"
      then obtain i where i: "i \<le> length (c # cs)" "match_at (drop i (c # cs)) = Some g"
        and first: "\<forall>j<i. match_at (drop j (c # cs)) = None" by blast
      from i None obtain k where k: "i = Suc k" by (cases i) auto
      have "\<forall>j<k. match_at (drop j cs) = None"
      proof (intro allI impI)
        fix j assume "j < k"
        then have "Suc j < i" using k by simp
        with first have "match_at (drop (Suc j) (c # cs)) = None" by blast
        then show "match_at (drop j cs) = None" by simp
      qed
      with i k have "regex_match cs = Some g" using Cons.IH by auto
      with eq show "regex_match (c # cs) = Some g" by simp
    qed
  qed
qed

lemma occurs_at_iff:
  "occurs_at s i lo hi \<longleftrightarrow> i \<le> length s \<and> match_at (drop i s) = Some (lo, hi)"
  by (auto simp: occurs_at_def match_at_iff)

lemma regex_match_first_occurrence:
  "regex_match s = Some (lo, hi) \<longleftrightarrow>
     (\<exists>i. occurs_at s i lo hi \<and> (\<forall>j lo' hi'. occurs_at s j lo' hi' \<longrightarrow> i \<le> j))"
proof
  assume "regex_match s = Some (lo, hi)"
  then obtain i where i: "i \<le> length s" "match_at (drop i s) = Some (lo, hi)"
    and first: "\<forall>j<i. match_at (drop j s) = None"
    unfolding regex_match_Some by blast
  have "\<forall>j lo' hi'. occurs_at s j lo' hi' \<longrightarrow> i \<le> j"
  proof (intro allI impI)
    fix j lo' hi' assume "occurs_at s j lo' hi'"
    then have "match_at (drop j s) = Some (lo', hi')" by (simp add: occurs_at_iff)
    with first show "i \<le> j" by (cases "j < i") auto
  qed
  with i show "\<exists>i. occurs_at s i lo hi \<and> (\<forall>j lo' hi'. occurs_at s j lo' hi' \<longrightarrow> i \<le> j)"
    by (auto simp: occurs_at_iff)
next
  assume "\<exists>i. occurs_at s i lo hi \<and> (\<forall>j lo' hi'. occurs_at s j lo' hi' \<longrightarrow> i \<le> j)"
  then obtain i where i: "occurs_at s i lo hi"
    and least: "\<forall>j lo' hi'. occurs_at s j lo' hi' \<longrightarrow> i \<le> j" by blast
  have "\<forall>j<i. match_at (drop j s) = None"
  proof (intro allI impI)
    fix j assume ji: "j < i"
    show "match_at (drop j s) = None"
    proof (cases "match_at (drop j s)")
      case None
      then show ?thesis .
    next
      case (Some g)
      obtain a b where "g = (a, b)" by (cases g)
      with Some ji i have "occurs_at s j a b" by (simp add: occurs_at_iff)
      with least have "i \<le> j" by blast
      with ji show ?thesis by simp
    qed
  qed
  with i show "regex_match s = Some (lo, hi)"
    unfolding regex_match_Some by (auto simp: occurs_at_iff)
qed

lemma regex_match_no_occurrence:
  "regex_match s = None \<longleftrightarrow> (\<forall>i lo hi. \<not> occurs_at s i lo hi)"
  unfolding regex_match_None occurs_at_iff
  by (metis not_Some_eq surj_pair)

lemma starts_with_iff: "starts_with s p \<longleftrightarrow> prefix p s"
  by (induction s p rule: starts_with.induct) auto

lemma str_includes_iff: "str_includes s p \<longleftrightarrow> sublist p s"
  by (induction s) (auto simp: starts_with_iff sublist_Cons_right)

subsection \<open>The approval percentage\<close>

text \<open>
  Claim C1 does not hold as written: the source divides the sum by two and returns the
  quotient as it is, neither rounded nor clamped. For \<^verbatim>\<open>"1-2%"\<close> the result is 1.5, not the
  mean rounded to an integer, and for \<^verbatim>\<open>"150-250%"\<close> it is 200, above 100.
\<close>

theorem getApprovalPercentage_not_rounded_not_clamped:
  "getApprovalPercentage ''1-2%'' = 3 / 2
   \<and> getApprovalPercentage ''1-2%'' \<noteq> of_int (round ((1 + 2) / 2 :: rat))
   \<and> getApprovalPercentage ''150-250%'' = 200
   \<and> \<not> getApprovalPercentage ''150-250%'' \<le> 100"
proof -
  have a: "getApprovalPercentage ''1-2%'' = 3 / 2"
    by (simp add: getApprovalPercentage_def match_at_def match_tail_def digit_run_def
        is_digit_def parseInt_def digit_value_def)
  have b: "getApprovalPercentage ''150-250%'' = 200"
    by (simp add: getApprovalPercentage_def match_at_def match_tail_def digit_run_def
        is_digit_def parseInt_def digit_value_def)
  have c: "round ((1 + 2) / 2 :: rat) = 2"
    by (simp add: round_def floor_unique)
  show ?thesis
    unfolding a b c by simp
qed

text \<open>
  Claim C1, amended. The priority order is the claim's: the leftmost pattern
  \<^verbatim>\<open><low>-<high>%\<close> decides when there is one, then the substrings \<^verbatim>\<open>High\<close>, \<^verbatim>\<open>Medium\<close>,
  \<^verbatim>\<open>Low\<close> in this order, then the default 50. With a pattern the result is the exact mean
  \<open>(low + high) / 2\<close> (for numbers of at most 15 digits, which JavaScript holds exactly):
  a half-integer when the sum is odd, and above 100 when the sum is above 200. Without a
  pattern the result is one of 90, 60, 30 and 50. The result is never negative.
\<close>

theorem getApprovalPercentage_priority:
  "(occurs_at s i lo hi \<and> (\<forall>j lo' hi'. occurs_at s j lo' hi' \<longrightarrow> i \<le> j)
      \<and> length lo \<le> 15 \<and> length hi \<le> 15 \<longrightarrow>
      getApprovalPercentage s = (of_nat (parseInt lo) + of_nat (parseInt hi)) / 2)
   \<and> ((\<forall>i lo hi. \<not> occurs_at s i lo hi) \<longrightarrow>
      getApprovalPercentage s =
        (if sublist ''High'' s then 90
         else if sublist ''Medium'' s then 60
         else if sublist ''Low'' s then 30
         else 50))
   \<and> 0 \<le> getApprovalPercentage s"
proof (intro conjI impI)
  assume "occurs_at s i lo hi \<and> (\<forall>j lo' hi'. occurs_at s j lo' hi' \<longrightarrow> i \<le> j)
    \<and> length lo \<le> 15 \<and> length hi \<le> 15"
  then have "regex_match s = Some (lo, hi)"
    unfolding regex_match_first_occurrence by blast
  then show "getApprovalPercentage s = (of_nat (parseInt lo) + of_nat (parseInt hi)) / 2"
    by (simp add: getApprovalPercentage_def)
next
  assume "\<forall>i lo hi. \<not> occurs_at s i lo hi"
  then have "regex_match s = None"
    unfolding regex_match_no_occurrence .
  then show "getApprovalPercentage s =
      (if sublist ''High'' s then 90
       else if sublist ''Medium'' s then 60
       else if sublist ''Low'' s then 30
       else 50)"
    by (simp add: getApprovalPercentage_def str_includes_iff)
next
  show "0 \<le> getApprovalPercentage s"
    by (auto simp: getApprovalPercentage_def split: option.splits)
qed

theorem getApprovalPercentage_priority_witness:
  "occurs_at ''60-80%'' 0 ''60'' ''80''
   \<and> getApprovalPercentage ''60-80%'' = 70
   \<and> getApprovalPercentage ''High chance'' = 90
   \<and> getApprovalPercentage ''Medium'' = 60
   \<and> getApprovalPercentage ''Low'' = 30
   \<and> getApprovalPercentage ''unparseable text'' = 50"
proof -
  have occ: "occurs_at ''60-80%'' 0 ''60'' ''80''"
    by (simp add: occurs_at_def digits_def is_digit_def)
  have first: "\<forall>j lo' hi'. occurs_at ''60-80%'' j lo' hi' \<longrightarrow> 0 \<le> j"
    by simp
  have mean: "(of_nat (parseInt ''60'') + of_nat (parseInt ''80'')) / 2 = (70 :: rat)"
    by (simp add: parseInt_def digit_value_def)
  have none: "\<forall>i lo hi. \<not> occurs_at t i lo hi"
    if "regex_match t = None" for t
    using that unfolding regex_match_no_occurrence .
  have h: "regex_match ''High chance'' = None"
    by (simp add: match_at_def match_tail_def digit_run_def is_digit_def)
  have m: "regex_match ''Medium'' = None"
    by (simp add: match_at_def match_tail_def digit_run_def is_digit_def)
  have l: "regex_match ''Low'' = None"
    by (simp add: match_at_def match_tail_def digit_run_def is_digit_def)
  have u: "regex_match ''unparseable text'' = None"
    by (simp add: match_at_def match_tail_def digit_run_def is_digit_def)
  have "getApprovalPercentage ''60-80%'' = 70"
    using getApprovalPercentage_priority[of "''60-80%''" 0 "''60''" "''80''"] occ first mean
    by simp
  moreover have "getApprovalPercentage ''High chance'' = 90"
    using getApprovalPercentage_priority[of "''High chance''"] none[OF h]
    by (simp add: str_includes_iff[symmetric])
  moreover have "getApprovalPercentage ''Medium'' = 60"
    using getApprovalPercentage_priority[of "''Medium''"] none[OF m]
    by (simp add: str_includes_iff[symmetric])
  moreover have "getApprovalPercentage ''Low'' = 30"
    using getApprovalPercentage_priority[of "''Low''"] none[OF l]
    by (simp add: str_includes_iff[symmetric])
  moreover have "getApprovalPercentage ''unparseable text'' = 50"
    using getApprovalPercentage_priority[of "''unparseable text''"] none[OF u]
    by (simp add: str_includes_iff[symmetric])
  ultimately show ?thesis using occ by simp
qed

subsection \<open>The order of the criteria\<close>

lemma set_insert_cmp: "set (insert_cmp cmp x ys) = insert x (set ys)"
  by (induction ys) auto

lemma mset_insert_cmp: "mset (insert_cmp cmp x ys) = add_mset x (mset ys)"
  by (induction ys) auto

lemma mset_array_sort: "mset (array_sort cmp xs) = mset xs"
  by (induction xs) (simp_all add: mset_insert_cmp)

lemma set_array_sort: "set (array_sort cmp xs) = set xs"
  using mset_array_sort[of cmp xs] by (rule mset_eq_setD)

lemma compare_numeric:
  "has_confidence x \<Longrightarrow> has_confidence y \<Longrightarrow>
     sort_compare by_confidence x y = card_confidence (snd y) - card_confidence (snd x)"
  by (auto simp: has_confidence_def sort_compare_def by_confidence_def card_confidence_def)

lemma descending_insert:
  assumes "sorted_wrt (\<lambda>a b. card_confidence (snd b) \<le> card_confidence (snd a)) ys"
    and "has_confidence x" and "\<forall>y\<in>set ys. has_confidence y"
  shows "sorted_wrt (\<lambda>a b. card_confidence (snd b) \<le> card_confidence (snd a))
           (insert_cmp by_confidence x ys)"
  using assms
proof (induction ys)
  case Nil
  then show ?case by simp
next
  case (Cons y ys)
  have cmp: "sort_compare by_confidence x y = card_confidence (snd y) - card_confidence (snd x)"
    using Cons.prems by (simp add: compare_numeric)
  show ?case
  proof (cases "sort_compare by_confidence x y \<le> 0")
    case True
    then have xy: "card_confidence (snd y) \<le> card_confidence (snd x)"
      using cmp by simp
    have "\<forall>z\<in>set ys. card_confidence (snd z) \<le> card_confidence (snd x)"
      using Cons.prems(1) xy by auto
    with True xy Cons.prems(1) show ?thesis by simp
  next
    case False
    then have "card_confidence (snd x) \<le> card_confidence (snd y)"
      using cmp by simp
    with False Cons show ?thesis by (auto simp: set_insert_cmp)
  qed
qed

lemma descending_array_sort:
  "\<forall>e\<in>set xs. has_confidence e \<Longrightarrow>
     sorted_wrt (\<lambda>a b. card_confidence (snd b) \<le> card_confidence (snd a))
       (array_sort by_confidence xs)"
  by (induction xs) (simp_all add: descending_insert set_array_sort)

lemma ties_insert:
  assumes "has_confidence x" and "\<forall>y\<in>set ys. has_confidence y"
  shows "filter (\<lambda>e. card_confidence (snd e) = c) (insert_cmp by_confidence x ys) =
     (if card_confidence (snd x) = c then x # filter (\<lambda>e. card_confidence (snd e) = c) ys
      else filter (\<lambda>e. card_confidence (snd e) = c) ys)"
  using assms by (induction ys) (auto simp: compare_numeric)

lemma ties_array_sort:
  "\<forall>e\<in>set xs. has_confidence e \<Longrightarrow>
     filter (\<lambda>e. card_confidence (snd e) = c) (array_sort by_confidence xs) =
     filter (\<lambda>e. card_confidence (snd e) = c) xs"
  by (induction xs) (simp_all add: ties_insert set_array_sort)

text \<open>
  Where every criterion has a confidence, \<open>sortedCriteria\<close> is the stable sort by
  descending confidence: the result is in descending order and a permutation of the
  entries, and entries of equal confidence keep the order of the input.
\<close>

lemma sortedCriteria_numeric:
  assumes "\<forall>e\<in>set es. has_confidence e"
  shows "sorted_wrt (\<lambda>a b. card_confidence (snd b) \<le> card_confidence (snd a)) (sortedCriteria es)"
    and "mset (sortedCriteria es) = mset es"
    and "filter (\<lambda>e. card_confidence (snd e) = c) (sortedCriteria es) =
         filter (\<lambda>e. card_confidence (snd e) = c) es"
  using assms
  by (simp_all add: sortedCriteria_def descending_array_sort mset_array_sort ties_array_sort)

lemma array_sort_is_stable_sort:
  assumes "\<forall>e\<in>set xs. has_confidence e"
  shows "array_sort by_confidence xs = sort_key (\<lambda>e. - card_confidence (snd e)) xs"
proof (rule properties_for_sort_key [symmetric])
  show "mset (array_sort by_confidence xs) = mset xs"
    by (rule mset_array_sort)
next
  fix k
  have eq: "(\<lambda>x. - card_confidence (snd k) = - card_confidence (snd x)) =
        (\<lambda>e. card_confidence (snd e) = card_confidence (snd k))"
    by auto
  show "filter (\<lambda>x. - card_confidence (snd k) = - card_confidence (snd x))
          (array_sort by_confidence xs) =
        filter (\<lambda>x. - card_confidence (snd k) = - card_confidence (snd x)) xs"
    unfolding eq using assms by (rule ties_array_sort)
next
  have "sorted_wrt (\<lambda>a b. - card_confidence (snd a) \<le> - card_confidence (snd b))
          (array_sort by_confidence xs)"
    using descending_array_sort[OF assms] by simp
  then show "sorted (map (\<lambda>e. - card_confidence (snd e)) (array_sort by_confidence xs))"
    by (simp add: sorted_wrt_map)
qed

lemma sortedCriteria_example:
  "map (card_confidence \<circ> snd)
     (sortedCriteria
        [(n1, \<lparr>confidence = Some (3 / 10), explanation = x1\<rparr>),
         (n2, \<lparr>confidence = Some (9 / 10), explanation = x2\<rparr>),
         (n3, \<lparr>confidence = Some (6 / 10), explanation = x3\<rparr>)]) = [9 / 10, 6 / 10, 3 / 10]"
  by (simp add: sortedCriteria_def sort_compare_def by_confidence_def card_confidence_def)

text \<open>
  Claim C2 at a payload in which a criterion has no confidence: \<^verbatim>\<open>a\<close> with 0.2, \<^verbatim>\<open>b\<close>
  with none, \<^verbatim>\<open>c\<close> with 0.8. The comparator is NaN for every pair with \<^verbatim>\<open>b\<close>, the entries
  stay in the order \<^verbatim>\<open>a\<close>, \<^verbatim>\<open>b\<close>, \<^verbatim>\<open>c\<close>, and the cards, which show a missing confidence as
  0, show 0.2, 0, 0.8: not in descending order.
\<close>

theorem sortedCriteria_missing_confidence:
  "map fst
     (sortedCriteria
        [(''a'', \<lparr>confidence = Some (2 / 10), explanation = []\<rparr>),
         (''b'', \<lparr>confidence = None, explanation = []\<rparr>),
         (''c'', \<lparr>confidence = Some (8 / 10), explanation = []\<rparr>)]) = [''a'', ''b'', ''c'']
   \<and> rendered_cards
        (AssessmentResult
           (Some \<lparr>status = Some ''success'', message = None,
                  assessment_of =
                    Some \<lparr>qualification_rating = None, approval_chance = None,
                          field_type = None,
                          detailed_assessment =
                            Some [(''a'', \<lparr>confidence = Some (2 / 10), explanation = []\<rparr>),
                                  (''b'', \<lparr>confidence = None, explanation = []\<rparr>),
                                  (''c'', \<lparr>confidence = Some (8 / 10), explanation = []\<rparr>)]\<rparr>\<rparr>))
       = [(''a'', 2 / 10), (''b'', 0), (''c'', 8 / 10)]
   \<and> \<not> sorted_wrt (\<lambda>x y. snd y \<le> snd x) [(''a'', 2 / 10 :: rat), (''b'', 0), (''c'', 8 / 10)]"
  by (simp add: sortedCriteria_def sort_compare_def by_confidence_def card_confidence_def
      rendered_cards_def rendered_criteria_def AssessmentResult_def or_default_def Let_def)

subsection \<open>The failure view\<close>

text \<open>
  Claim C7 does not hold as written: the default description of the failure card is
  \<^verbatim>\<open>Unable to process the CV file\<close>, not \<^verbatim>\<open>processing failed.\<close>
\<close>

theorem AssessmentResult_default_message:
  "AssessmentResult (Some \<lparr>status = Some ''failure'', message = None, assessment_of = None\<rparr>)
     = AnalysisFailed ''Unable to process the CV file''
   \<and> AssessmentResult (Some \<lparr>status = Some ''failure'', message = None, assessment_of = None\<rparr>)
     \<noteq> AnalysisFailed ''processing failed.''"
  by (simp add: AssessmentResult_def or_default_def)

text \<open>
  Claim C7, amended. A payload whose status is not \<^verbatim>\<open>success\<close>, and a missing payload,
  give the failure card and no criteria. The card shows the payload's message when there
  is one and it is not empty, and \<^verbatim>\<open>Unable to process the CV file\<close> otherwise.
\<close>

theorem AssessmentResult_failure_view:
  "(status r \<noteq> Some ''success'' \<and> message r = Some m \<and> m \<noteq> [] \<longrightarrow>
      AssessmentResult (Some r) = AnalysisFailed m)
   \<and> (status r \<noteq> Some ''success'' \<and> (message r = None \<or> message r = Some []) \<longrightarrow>
      AssessmentResult (Some r) = AnalysisFailed ''Unable to process the CV file'')
   \<and> (status r \<noteq> Some ''success'' \<longrightarrow> rendered_criteria (AssessmentResult (Some r)) = [])
   \<and> AssessmentResult None = AnalysisFailed ''Unable to process the CV file''
   \<and> rendered_criteria (AssessmentResult None) = []"
  by (auto simp: AssessmentResult_def or_default_def rendered_criteria_def)

theorem AssessmentResult_failure_view_witness:
  "AssessmentResult
     (Some \<lparr>status = Some ''failure'', message = Some ''parse error'', assessment_of = None\<rparr>)
     = AnalysisFailed ''parse error''
   \<and> rendered_criteria (AssessmentResult
     (Some \<lparr>status = Some ''failure'', message = Some ''parse error'', assessment_of = None\<rparr>))
     = []
   \<and> AssessmentResult (Some \<lparr>status = None, message = Some [], assessment_of = None\<rparr>)
     = AnalysisFailed ''Unable to process the CV file''"
proof -
  let ?r = "\<lparr>status = Some ''failure'', message = Some ''parse error'', assessment_of = None\<rparr>"
  let ?q = "\<lparr>status = None, message = Some [], assessment_of = None\<rparr>"
  have "status ?r \<noteq> Some ''success'' \<and> message ?r = Some ''parse error'' \<and> ''parse error'' \<noteq> []"
    by simp
  moreover have "status ?q \<noteq> Some ''success'' \<and> (message ?q = None \<or> message ?q = Some [])"
    by simp
  ultimately show ?thesis
    using AssessmentResult_failure_view[of ?r "''parse error''"]
      AssessmentResult_failure_view[of ?q "[]"]
    by (simp add: rendered_criteria_def)
qed

subsection \<open>The field type\<close>

lemma upper_char_underscore: "upper_char c = CHR ''_'' \<longleftrightarrow> c = CHR ''_''"
  by (simp add: upper_char_def)

lemma upper_char_space: "upper_char c = CHR '' '' \<longleftrightarrow> c = CHR '' ''"
  by (simp add: upper_char_def)

text \<open>Capitalizing keeps every underscore where it is and puts a space nowhere.\<close>

lemma capitalize_words_underscores:
  "map (\<lambda>c. c = CHR ''_'') (capitalize_words prev s) = map (\<lambda>c. c = CHR ''_'') s"
  by (induction s arbitrary: prev) (simp_all add: upper_char_underscore)

lemma capitalize_words_spaces:
  "map (\<lambda>c. c = CHR '' '') (capitalize_words prev s) = map (\<lambda>c. c = CHR '' '') s"
  by (induction s arbitrary: prev) (simp_all add: upper_char_space)

text \<open>
  Claim C8 at the input \<^verbatim>\<open>stem_researcher\<close>. The underscore is a word character for
  \<^verbatim>\<open>\b\w\<close>, so only the first letter is upper-cased, and the underscore stays. The labels
  of the fees and the visa durations, in the same component, replace underscores by
  spaces first and come out in title case.
\<close>

theorem fieldType_stem_researcher:
  "fieldType (Some ''stem_researcher'') = ''Stem_researcher''
   \<and> fieldType (Some ''stem_researcher'') \<noteq> ''Stem Researcher''
   \<and> fee_label ''stem_researcher'' = ''Stem Researcher''
   \<and> fieldType (Some ''stem researcher'') = ''Stem Researcher''"
  by (simp add: fieldType_def fee_label_def replace_underscores_def is_word_char_def
      is_lower_def is_upper_def is_digit_def upper_char_def)

subsection \<open>The processing notification\<close>

lemma incrementAmount_value: "incrementAmount = 5 / 12"
  by (simp add: incrementAmount_def interval_def totalDuration_def)

lemma notification_run_snoc:
  "notification_run (evs @ [e]) s = notification_step e (notification_run evs s)"
  by (simp add: notification_run_def)

lemma notification_inv_mount: "notification_inv (mount b)"
  by (simp add: notification_inv_def mount_def visibility_effect_def stage_effect_def)

lemma notification_inv_set_visible:
  assumes "notification_inv s"
  shows "notification_inv (notification_step (SetVisible b) s)"
proof (cases "b = isVisible s")
  case True
  with assms show ?thesis by simp
next
  case False
  show ?thesis
  proof (cases b)
    case True
    with False assms show ?thesis
      by (simp add: notification_inv_def after_render_def visibility_effect_def cleanup_def)
  next
    case b: False
    with False assms show ?thesis
      by (simp add: notification_inv_def after_render_def visibility_effect_def cleanup_def
          stage_effect_def)
  qed
qed

lemma notification_inv_tick:
  assumes "notification_inv s"
  shows "notification_inv (notification_step Tick s)"
proof (cases "timer s")
  case False
  with assms show ?thesis by simp
next
  case True
  let ?p = "min (progress s + incrementAmount) 100"
  have bounds: "progress s \<le> ?p" "?p \<le> 100" "0 \<le> ?p"
    using assms by (simp_all add: notification_inv_def incrementAmount_value min_def)
  show ?thesis
  proof (cases "?p = progress s")
    case same: True
    with True assms show ?thesis
      by (simp add: after_render_def)
  next
    case changed: False
    with True assms bounds show ?thesis
      by (auto simp: notification_inv_def after_render_def stage_effect_def)
  qed
qed

lemma notification_inv_step:
  "notification_inv s \<Longrightarrow> notification_inv (notification_step e s)"
  by (cases e) (simp_all only: notification_inv_set_visible notification_inv_tick)

lemma notification_inv_run:
  "notification_inv s \<Longrightarrow> notification_inv (notification_run evs s)"
  by (induction evs rule: rev_induct)
    (simp_all add: notification_run_snoc notification_inv_step, simp add: notification_run_def)

lemma notification_inv_reachable: "notification_inv (notification_run evs (mount b))"
  by (simp add: notification_inv_run notification_inv_mount)

lemma tick_progress_mono:
  "notification_inv s \<Longrightarrow> progress s \<le> progress (notification_step Tick s)"
  by (simp add: notification_inv_def after_render_def stage_effect_def incrementAmount_value
      min_def)

lemma tick_stage_mono:
  assumes "notification_inv s"
  shows "stage s \<le> stage (notification_step Tick s)"
proof -
  define t where "t = notification_step Tick s"
  have "notification_inv t"
    unfolding t_def using assms by (rule notification_inv_tick)
  then have after: "stage t = (if 75 < progress t then 2 else if 30 < progress t then 1 else 0)"
    by (simp add: notification_inv_def)
  have before: "stage s = (if 75 < progress s then 2 else if 30 < progress s then 1 else 0)"
    using assms by (simp add: notification_inv_def)
  have "progress s \<le> progress t"
    unfolding t_def using assms by (rule tick_progress_mono)
  then have "stage s \<le> stage t"
    unfolding before after by auto
  then show ?thesis
    unfolding t_def .
qed

lemma ticks_keep_visible:
  "isVisible (notification_run (replicate n Tick) s) = isVisible s"
proof (induction n)
  case 0
  show ?case by (simp add: notification_run_def)
next
  case (Suc n)
  have "replicate (Suc n) Tick = replicate n Tick @ [Tick]"
    by (simp add: replicate_append_same)
  with Suc show ?case
    by (simp add: notification_run_snoc after_render_def stage_effect_def
        del: replicate.simps)
qed

lemma ticks_progress:
  "progress (notification_run (replicate n Tick) (mount True)) = min (of_nat n * (5 / 12)) 100"
proof (induction n)
  case 0
  show ?case
    by (simp add: notification_run_def mount_def visibility_effect_def stage_effect_def)
next
  case (Suc n)
  let ?s = "notification_run (replicate n Tick) (mount True)"
  have rep: "replicate (Suc n) Tick = replicate n Tick @ [Tick]"
    by (simp add: replicate_append_same)
  have "notification_inv ?s"
    by (rule notification_inv_reachable)
  moreover have "isVisible ?s"
    by (simp add: ticks_keep_visible mount_def visibility_effect_def stage_effect_def)
  ultimately have t: "timer ?s"
    by (simp add: notification_inv_def)
  have "progress (notification_step Tick ?s) = min (progress ?s + 5 / 12) 100"
    using t by (simp add: after_render_def stage_effect_def incrementAmount_value)
  also have "\<dots> = min (of_nat (Suc n) * (5 / 12)) 100"
    unfolding Suc.IH by (simp add: min_def algebra_simps)
  finally show ?case
    unfolding rep notification_run_snoc .
qed

text \<open>
  Claim C5. In every state the component reaches, a tick does not lower the progress, the
  progress lies between 0 and 100 before and after the tick, the interval runs exactly
  while the component is visible, and a hidden component has progress 0: so an episode
  starts from 0. An episode of more than 240 ticks, that is more than 120 seconds, stays at
  100.
\<close>

theorem progress_monotone_clamped_reset:
  "progress (notification_run evs (mount b))
     \<le> progress (notification_step Tick (notification_run evs (mount b)))
   \<and> 0 \<le> progress (notification_run evs (mount b))
   \<and> progress (notification_run evs (mount b)) \<le> 100
   \<and> progress (notification_step Tick (notification_run evs (mount b))) \<le> 100
   \<and> timer (notification_run evs (mount b)) = isVisible (notification_run evs (mount b))
   \<and> (\<not> isVisible (notification_run evs (mount b)) \<longrightarrow>
        progress (notification_run evs (mount b)) = 0
        \<and> progress (notification_step (SetVisible True) (notification_run evs (mount b))) = 0
        \<and> isVisible (notification_step (SetVisible True) (notification_run evs (mount b))))
   \<and> progress (mount True) = 0
   \<and> (240 < n \<longrightarrow> progress (notification_run (replicate n Tick) (mount True)) = 100)"
proof -
  let ?s = "notification_run evs (mount b)"
  have inv: "notification_inv ?s"
    by (rule notification_inv_reachable)
  have inv': "notification_inv (notification_step Tick ?s)"
    using inv by (rule notification_inv_tick)
  have "progress ?s \<le> progress (notification_step Tick ?s)"
    using inv by (rule tick_progress_mono)
  moreover have "0 \<le> progress ?s" "progress ?s \<le> 100" "timer ?s = isVisible ?s"
    using inv by (simp_all add: notification_inv_def)
  moreover have "progress (notification_step Tick ?s) \<le> 100"
    using inv' by (simp add: notification_inv_def)
  moreover have "\<not> isVisible ?s \<longrightarrow>
      progress ?s = 0 \<and> progress (notification_step (SetVisible True) ?s) = 0
      \<and> isVisible (notification_step (SetVisible True) ?s)"
    using inv
    by (auto simp: notification_inv_def after_render_def visibility_effect_def cleanup_def)
  moreover have "progress (mount True) = 0"
    by (simp add: mount_def visibility_effect_def stage_effect_def)
  moreover have "240 < n \<longrightarrow> progress (notification_run (replicate n Tick) (mount True)) = 100"
    unfolding ticks_progress by (simp add: min_def)
  ultimately show ?thesis by blast
qed

theorem progress_monotone_clamped_reset_witness:
  "\<not> isVisible (notification_run [Tick, SetVisible False] (mount True))
   \<and> progress (notification_run [Tick] (mount True)) = 5 / 12
   \<and> progress (notification_run [Tick, SetVisible False] (mount True)) = 0
   \<and> progress (notification_step (SetVisible True)
        (notification_run [Tick, SetVisible False] (mount True))) = 0
   \<and> progress (notification_run (replicate 241 Tick) (mount True)) = 100"
proof -
  let ?s = "notification_run [Tick, SetVisible False] (mount True)"
  have hidden: "\<not> isVisible ?s"
    by (simp add: notification_run_def mount_def visibility_effect_def stage_effect_def
        after_render_def cleanup_def incrementAmount_value)
  have one: "progress (notification_run [Tick] (mount True)) = 5 / 12"
    by (simp add: notification_run_def mount_def visibility_effect_def stage_effect_def
        after_render_def incrementAmount_value)
  have long: "(240::nat) < 241"
    by simp
  have "progress ?s = 0
      \<and> progress (notification_step (SetVisible True) ?s) = 0
      \<and> progress (notification_run (replicate 241 Tick) (mount True)) = 100"
    using progress_monotone_clamped_reset[of "[Tick, SetVisible False]" True 241] hidden long
    by blast
  with hidden one show ?thesis
    by blast
qed

text \<open>
  Claim C6. In every state the component reaches, the stage is the one the thresholds give:
  0 (extracting) up to 30, 1 (analyzing) above 30 and up to 75, 2 (finalizing) above 75. The
  effect leaves stage 0 at progress 30 and sets 1 at 31 and 2 at 76. Ticks, of which an
  episode consists, never lower the stage.
\<close>

theorem stage_thresholds_monotone:
  "(progress (notification_run evs (mount b)) \<le> 30 \<longrightarrow>
      stage (notification_run evs (mount b)) = 0)
   \<and> (30 < progress (notification_run evs (mount b))
        \<and> progress (notification_run evs (mount b)) \<le> 75 \<longrightarrow>
      stage (notification_run evs (mount b)) = 1)
   \<and> (75 < progress (notification_run evs (mount b)) \<longrightarrow>
      stage (notification_run evs (mount b)) = 2)
   \<and> stage (notification_run evs (mount b))
       \<le> stage (notification_step Tick (notification_run evs (mount b)))
   \<and> stage (stage_effect \<lparr>isVisible = True, progress = 30, stage = 0, timer = True\<rparr>) = 0
   \<and> stage (stage_effect \<lparr>isVisible = True, progress = 31, stage = 0, timer = True\<rparr>) = 1
   \<and> stage (stage_effect \<lparr>isVisible = True, progress = 76, stage = 1, timer = True\<rparr>) = 2"
proof -
  let ?s = "notification_run evs (mount b)"
  have inv: "notification_inv ?s"
    by (rule notification_inv_reachable)
  have "progress ?s \<le> 30 \<longrightarrow> stage ?s = 0"
    using inv by (simp add: notification_inv_def)
  moreover have "30 < progress ?s \<and> progress ?s \<le> 75 \<longrightarrow> stage ?s = 1"
    using inv by (simp add: notification_inv_def)
  moreover have "75 < progress ?s \<longrightarrow> stage ?s = 2"
    using inv by (simp add: notification_inv_def)
  moreover have "stage ?s \<le> stage (notification_step Tick ?s)"
    using inv by (rule tick_stage_mono)
  moreover have
    "stage (stage_effect \<lparr>isVisible = True, progress = 30, stage = 0, timer = True\<rparr>) = 0"
    "stage (stage_effect \<lparr>isVisible = True, progress = 31, stage = 0, timer = True\<rparr>) = 1"
    "stage (stage_effect \<lparr>isVisible = True, progress = 76, stage = 1, timer = True\<rparr>) = 2"
    by (simp_all add: stage_effect_def)
  ultimately show ?thesis by blast
qed

theorem stage_thresholds_monotone_witness:
  "stage (notification_run (replicate 10 Tick) (mount True)) = 0
   \<and> stage (notification_run (replicate 100 Tick) (mount True)) = 1
   \<and> stage (notification_run (replicate 200 Tick) (mount True)) = 2"
proof -
  have a: "progress (notification_run (replicate 10 Tick) (mount True)) \<le> 30"
    unfolding ticks_progress by simp
  have b: "30 < progress (notification_run (replicate 100 Tick) (mount True))
      \<and> progress (notification_run (replicate 100 Tick) (mount True)) \<le> 75"
    unfolding ticks_progress by simp
  have c: "75 < progress (notification_run (replicate 200 Tick) (mount True))"
    unfolding ticks_progress by simp
  show ?thesis
    using stage_thresholds_monotone[of "replicate 10 Tick" True] a
      stage_thresholds_monotone[of "replicate 100 Tick" True] b
      stage_thresholds_monotone[of "replicate 200 Tick" True] c
    by blast
qed

text \<open>
  Claim C10. In every state the component reaches, the stage is 0, 1 or 2, an index of the
  three stages, so the icon and the text of the current stage are always defined.
\<close>

theorem stage_index_in_bounds:
  "stage (notification_run evs (mount b)) \<in> {0, 1, 2}
   \<and> length stages = 3
   \<and> stage (notification_run evs (mount b)) < length stages
   \<and> current_stage (notification_run evs (mount b))
       = Inr (stages ! stage (notification_run evs (mount b)))"
proof -
  have "notification_inv (notification_run evs (mount b))"
    by (rule notification_inv_reachable)
  then have "stage (notification_run evs (mount b)) \<in> {0, 1, 2}"
    by (simp add: notification_inv_def)
  moreover have "length stages = 3"
    by (simp add: stages_def)
  ultimately show ?thesis
    by (auto simp: current_stage_def)
qed

subsection \<open>The upload form\<close>

lemma split_on_not_Nil: "split_on d s \<noteq> []"
  by (induction s) (auto split: list.splits)

lemma split_on_two:
  "d \<in> set s \<Longrightarrow> \<exists>w v vs. split_on d s = w # v # vs"
proof (induction s)
  case Nil
  then show ?case by simp
next
  case (Cons c cs)
  show ?case
  proof (cases "c = d")
    case True
    then show ?thesis
      using split_on_not_Nil[of d cs] by (cases "split_on d cs") auto
  next
    case False
    with Cons.prems have "d \<in> set cs" by simp
    from Cons.IH[OF this] obtain w v vs where "split_on d cs = w # v # vs" by blast
    with False show ?thesis by simp
  qed
qed

lemma split_on_without: "d \<notin> set s \<Longrightarrow> split_on d s = [s]"
  by (induction s) auto

lemma last_split_on:
  "last (split_on d (base @ d # ext)) = last (split_on d ext)"
proof (induction base)
  case Nil
  then show ?case by (simp add: split_on_not_Nil)
next
  case (Cons c cs)
  show ?case
  proof (cases "c = d")
    case True
    with Cons show ?thesis by (simp add: split_on_not_Nil)
  next
    case False
    have "d \<in> set (cs @ d # ext)" by simp
    from split_on_two[OF this] obtain w v vs where "split_on d (cs @ d # ext) = w # v # vs"
      by blast
    with False Cons show ?thesis by simp
  qed
qed

lemma fileExt_suffix:
  "CHR ''.'' \<notin> set ext \<Longrightarrow> fileExt (base @ ''.'' @ ext) = toLowerCase ext"
  by (simp add: fileExt_def last_split_on split_on_without)

lemma fileExt_no_dot: "CHR ''.'' \<notin> set n \<Longrightarrow> fileExt n = toLowerCase n"
  by (simp add: fileExt_def split_on_without)

lemma form_run_snoc: "form_run (evs @ [e]) s = form_step e (form_run evs s)"
  by (simp add: form_run_def)

lemma handleFileChange_keeps:
  "isLoading (handleFileChange files s) = isLoading s
   \<and> inflight (handleFileChange files s) = inflight s"
  by (simp add: handleFileChange_def split: list.splits)

lemma form_inv_step:
  assumes "form_inv s"
  shows "form_inv (form_step e s)"
proof (cases e)
  case (FileChange files)
  with assms show ?thesis
    by (simp add: form_inv_def handleFileChange_keeps)
next
  case SubmitForm
  with assms show ?thesis
    by (auto simp: form_inv_def handleSubmit_begin_def split: option.splits)
next
  case (Settle outcome)
  show ?thesis
  proof (cases "inflight s")
    case Nil
    with Settle assms show ?thesis by simp
  next
    case (Cons req rest)
    with assms have "rest = []" by (simp add: form_inv_def)
    with Settle Cons show ?thesis
      by (simp add: form_inv_def handleSubmit_settle_def split: fetch_outcome.splits body.splits)
  qed
qed

lemma form_inv_reachable: "form_inv (form_run evs initial_form)"
proof (induction evs rule: rev_induct)
  case Nil
  show ?case by (simp add: form_run_def form_inv_def initial_form_def)
next
  case (snoc e evs)
  then show ?case by (simp add: form_run_snoc form_inv_step)
qed

lemma view_of_a: "AssessmentResult (Some assessment_of_a) = view_of_a"
  by (simp add: AssessmentResult_def or_default_def Let_def toLowerCase_def lower_char_def
      getApprovalPercentage_def match_at_def match_tail_def digit_run_def is_digit_def
      fieldType_def is_word_char_def is_lower_def is_upper_def upper_char_def
      sortedCriteria_def)

lemma run_until_result:
  "form_run [FileChange [a_pdf], SubmitForm, Settle (Response 200 (Parsed (Some assessment_of_a)))]
     initial_form
   = initial_form\<lparr>file_sel := Some a_pdf, result := Some assessment_of_a\<rparr>"
  by (simp add: form_run_def initial_form_def handleFileChange_def fileExt_def toLowerCase_def
      lower_char_def handleSubmit_begin_def handleSubmit_settle_def)

lemma run_until_sent:
  "form_run [FileChange [a_pdf], SubmitForm] initial_form
   = initial_form
       \<lparr>file_sel := Some a_pdf, isLoading := True,
        inflight := [\<lparr>url = ''https://09c9-38-242-232-192.ngrok-free.app/api/analyze'',
                      cv_file = a_pdf\<rparr>]\<rparr>"
  by (simp add: form_run_def initial_form_def handleFileChange_def fileExt_def toLowerCase_def
      lower_char_def handleSubmit_begin_def)

text \<open>
  Claim C3 does not hold as written: a rejected file clears the selected file and sets the
  error, but the result stays. After the assessment for \<^verbatim>\<open>a.pdf\<close> has arrived and is shown,
  choosing \<^verbatim>\<open>virus.exe\<close> leaves that assessment on the screen, with no file selected.
\<close>

theorem rejected_file_keeps_result:
  "result_view (form_run
     [FileChange [a_pdf], SubmitForm, Settle (Response 200 (Parsed (Some assessment_of_a)))]
     initial_form) = Some view_of_a
   \<and> result_view (form_run
     [FileChange [a_pdf], SubmitForm, Settle (Response 200 (Parsed (Some assessment_of_a))),
      FileChange [\<lparr>name = ''virus.exe'', content = ''X''\<rparr>]] initial_form) = Some view_of_a
   \<and> result (form_run
     [FileChange [a_pdf], SubmitForm, Settle (Response 200 (Parsed (Some assessment_of_a))),
      FileChange [\<lparr>name = ''virus.exe'', content = ''X''\<rparr>]] initial_form) \<noteq> None
   \<and> file_sel (form_run
     [FileChange [a_pdf], SubmitForm, Settle (Response 200 (Parsed (Some assessment_of_a))),
      FileChange [\<lparr>name = ''virus.exe'', content = ''X''\<rparr>]] initial_form) = None
   \<and> error (form_run
     [FileChange [a_pdf], SubmitForm, Settle (Response 200 (Parsed (Some assessment_of_a))),
      FileChange [\<lparr>name = ''virus.exe'', content = ''X''\<rparr>]] initial_form)
     = Some ''Unsupported file format. Please upload a PDF, DOCX, or TXT file.''"
proof -
  have split: "form_run
      [FileChange [a_pdf], SubmitForm, Settle (Response 200 (Parsed (Some assessment_of_a))),
       FileChange [\<lparr>name = ''virus.exe'', content = ''X''\<rparr>]] initial_form
    = form_step (FileChange [\<lparr>name = ''virus.exe'', content = ''X''\<rparr>])
        (form_run
           [FileChange [a_pdf], SubmitForm, Settle (Response 200 (Parsed (Some assessment_of_a)))]
           initial_form)"
    by (simp add: form_run_def)
  show ?thesis
    unfolding split run_until_result
    by (simp add: result_view_def view_of_a handleFileChange_def fileExt_def toLowerCase_def
        lower_char_def initial_form_def)
qed

text \<open>
  Claim C3, amended. The extension of a file is what follows the last dot of its name, and
  the whole name when it has no dot, in lower case. A file whose extension is not
  \<^verbatim>\<open>pdf\<close>, \<^verbatim>\<open>docx\<close> or \<^verbatim>\<open>txt\<close> is rejected: the error is set, the selected file is cleared,
  no request is sent, and the loading flag and any earlier result stay as they are.
\<close>

theorem handleFileChange_rejects:
  "(fileExt (name f) \<notin> {''pdf'', ''docx'', ''txt''} \<longrightarrow>
      error (handleFileChange (f # fs) s)
        = Some ''Unsupported file format. Please upload a PDF, DOCX, or TXT file.''
      \<and> file_sel (handleFileChange (f # fs) s) = None
      \<and> inflight (handleFileChange (f # fs) s) = inflight s
      \<and> isLoading (handleFileChange (f # fs) s) = isLoading s
      \<and> result (handleFileChange (f # fs) s) = result s)
   \<and> (CHR ''.'' \<notin> set ext \<longrightarrow>
        fileExt (base @ ''.'' @ ext) = toLowerCase ext \<and> fileExt ext = toLowerCase ext)"
proof (intro conjI impI)
  assume "CHR ''.'' \<notin> set ext"
  then show "fileExt (base @ ''.'' @ ext) = toLowerCase ext"
    by (rule fileExt_suffix)
next
  assume "CHR ''.'' \<notin> set ext"
  then show "fileExt ext = toLowerCase ext"
    by (rule fileExt_no_dot)
qed (simp_all add: handleFileChange_def)

theorem handleFileChange_rejects_witness:
  "file_sel (form_run
      [FileChange [a_pdf], SubmitForm, Settle (Response 200 (Parsed (Some assessment_of_a)))]
      initial_form) = Some a_pdf
   \<and> result (form_run
      [FileChange [a_pdf], SubmitForm, Settle (Response 200 (Parsed (Some assessment_of_a)))]
      initial_form) = Some assessment_of_a
   \<and> fileExt ''virus.EXE'' = ''exe''
   \<and> fileExt ''README'' = ''readme''
   \<and> file_sel (handleFileChange [\<lparr>name = ''virus.EXE'', content = ''X''\<rparr>] (form_run
      [FileChange [a_pdf], SubmitForm, Settle (Response 200 (Parsed (Some assessment_of_a)))]
      initial_form)) = None
   \<and> result (handleFileChange [\<lparr>name = ''virus.EXE'', content = ''X''\<rparr>] (form_run
      [FileChange [a_pdf], SubmitForm, Settle (Response 200 (Parsed (Some assessment_of_a)))]
      initial_form)) = Some assessment_of_a
   \<and> error (handleFileChange [\<lparr>name = ''virus.EXE'', content = ''X''\<rparr>] (form_run
      [FileChange [a_pdf], SubmitForm, Settle (Response 200 (Parsed (Some assessment_of_a)))]
      initial_form))
     = Some ''Unsupported file format. Please upload a PDF, DOCX, or TXT file.''"
proof -
  let ?f = "\<lparr>name = ''virus.EXE'', content = ''X''\<rparr>"
  let ?s = "form_run
      [FileChange [a_pdf], SubmitForm, Settle (Response 200 (Parsed (Some assessment_of_a)))]
      initial_form"
  have before: "file_sel ?s = Some a_pdf" "result ?s = Some assessment_of_a"
    unfolding run_until_result by (simp_all add: initial_form_def)
  have dot: "CHR ''.'' \<notin> set ''EXE''" "CHR ''.'' \<notin> set ''README''"
    by simp_all
  have "fileExt (''virus'' @ ''.'' @ ''EXE'') = toLowerCase ''EXE''"
    using handleFileChange_rejects[of ?f "[]" ?s "''EXE''" "''virus''"] dot(1) by blast
  then have exe: "fileExt ''virus.EXE'' = ''exe''"
    by (simp add: toLowerCase_def lower_char_def)
  have "fileExt ''README'' = toLowerCase ''README''"
    using handleFileChange_rejects[of ?f "[]" ?s "''README''" "''virus''"] dot(2) by blast
  then have readme: "fileExt ''README'' = ''readme''"
    by (simp add: toLowerCase_def lower_char_def)
  have "fileExt (name ?f) \<notin> {''pdf'', ''docx'', ''txt''}"
    using exe by simp
  then have "error (handleFileChange [?f] ?s)
        = Some ''Unsupported file format. Please upload a PDF, DOCX, or TXT file.''
      \<and> file_sel (handleFileChange [?f] ?s) = None
      \<and> result (handleFileChange [?f] ?s) = result ?s"
    using handleFileChange_rejects[of ?f "[]" ?s "''EXE''" "''virus''"] by blast
  with before exe readme show ?thesis
    by (simp only: simp_thms)
qed

text \<open>A file named \<^verbatim>\<open>pdf\<close>, without a dot, has the extension \<^verbatim>\<open>pdf\<close> and is accepted.\<close>

lemma file_named_pdf_accepted:
  "file_sel (handleFileChange [\<lparr>name = ''pdf'', content = c\<rparr>] s)
     = Some \<lparr>name = ''pdf'', content = c\<rparr>"
  by (simp add: handleFileChange_def fileExt_def toLowerCase_def lower_char_def)

text \<open>
  Claim C4 does not hold as written: the source has no guard against a stale response.
  \<^verbatim>\<open>a.pdf\<close> is submitted, \<^verbatim>\<open>b.pdf\<close> is selected while the request for \<^verbatim>\<open>a.pdf\<close> is in
  flight, and the assessment that answers that request is shown as the result next to
  \<^verbatim>\<open>b.pdf\<close>.
\<close>

theorem stale_response_is_applied:
  "map cv_file (inflight (form_run
     [FileChange [a_pdf], SubmitForm, FileChange [b_pdf]] initial_form)) = [a_pdf]
   \<and> file_sel (form_run
     [FileChange [a_pdf], SubmitForm, FileChange [b_pdf],
      Settle (Response 200 (Parsed (Some assessment_of_a)))] initial_form) = Some b_pdf
   \<and> result (form_run
     [FileChange [a_pdf], SubmitForm, FileChange [b_pdf],
      Settle (Response 200 (Parsed (Some assessment_of_a)))] initial_form)
     = Some assessment_of_a
   \<and> result_view (form_run
     [FileChange [a_pdf], SubmitForm, FileChange [b_pdf],
      Settle (Response 200 (Parsed (Some assessment_of_a)))] initial_form) = Some view_of_a"
proof -
  have sent: "form_run [FileChange [a_pdf], SubmitForm, FileChange [b_pdf]] initial_form
    = form_step (FileChange [b_pdf]) (form_run [FileChange [a_pdf], SubmitForm] initial_form)"
    by (simp add: form_run_def)
  have settled: "form_run
      [FileChange [a_pdf], SubmitForm, FileChange [b_pdf],
       Settle (Response 200 (Parsed (Some assessment_of_a)))] initial_form
    = form_step (Settle (Response 200 (Parsed (Some assessment_of_a))))
        (form_step (FileChange [b_pdf]) (form_run [FileChange [a_pdf], SubmitForm] initial_form))"
    by (simp add: form_run_def)
  show ?thesis
    unfolding sent settled run_until_sent
    by (simp add: result_view_def view_of_a handleFileChange_def fileExt_def toLowerCase_def
        lower_char_def handleSubmit_settle_def initial_form_def)
qed

text \<open>
  Claim C4, amended. A change of the file input while a request is in flight neither
  cancels the request nor invalidates its response: when the response arrives with a
  success status and a body that parses, the body becomes the result and loading ends,
  while the selected file is the one the change left.
\<close>

theorem response_applied_after_file_change:
  "inflight s = req # rest \<and> 200 \<le> code \<and> code \<le> 299 \<longrightarrow>
     inflight (form_step (FileChange files) s) = req # rest
     \<and> result (form_step (Settle (Response code (Parsed data))) (form_step (FileChange files) s))
         = data
     \<and> isLoading (form_step (Settle (Response code (Parsed data))) (form_step (FileChange files) s))
         = False
     \<and> file_sel (form_step (Settle (Response code (Parsed data))) (form_step (FileChange files) s))
         = file_sel (form_step (FileChange files) s)"
  by (simp add: handleFileChange_keeps handleSubmit_settle_def)

theorem response_applied_after_file_change_witness:
  "map cv_file (inflight (form_run [FileChange [a_pdf], SubmitForm] initial_form)) = [a_pdf]
   \<and> result (form_step (FileChange [b_pdf])
        (form_run [FileChange [a_pdf], SubmitForm] initial_form)) = None
   \<and> result (form_step (Settle (Response 200 (Parsed (Some assessment_of_a))))
        (form_step (FileChange [b_pdf])
          (form_run [FileChange [a_pdf], SubmitForm] initial_form))) = Some assessment_of_a
   \<and> file_sel (form_step (Settle (Response 200 (Parsed (Some assessment_of_a))))
        (form_step (FileChange [b_pdf])
          (form_run [FileChange [a_pdf], SubmitForm] initial_form))) = Some b_pdf
   \<and> \<not> isLoading (form_step (Settle (Response 200 (Parsed (Some assessment_of_a))))
        (form_step (FileChange [b_pdf])
          (form_run [FileChange [a_pdf], SubmitForm] initial_form)))"
proof -
  let ?s = "form_run [FileChange [a_pdf], SubmitForm] initial_form"
  let ?req = "\<lparr>url = ''https://09c9-38-242-232-192.ngrok-free.app/api/analyze'',
               cv_file = a_pdf\<rparr>"
  have sent: "inflight ?s = ?req # []"
    unfolding run_until_sent by (simp add: initial_form_def)
  have code: "(200::nat) \<le> 200 \<and> (200::nat) \<le> 299"
    by simp
  have changed: "file_sel (form_step (FileChange [b_pdf]) ?s) = Some b_pdf"
    "result (form_step (FileChange [b_pdf]) ?s) = None"
    by (simp_all add: handleFileChange_def fileExt_def toLowerCase_def lower_char_def)
  have "result (form_step (Settle (Response 200 (Parsed (Some assessment_of_a))))
          (form_step (FileChange [b_pdf]) ?s)) = Some assessment_of_a
      \<and> isLoading (form_step (Settle (Response 200 (Parsed (Some assessment_of_a))))
          (form_step (FileChange [b_pdf]) ?s)) = False
      \<and> file_sel (form_step (Settle (Response 200 (Parsed (Some assessment_of_a))))
          (form_step (FileChange [b_pdf]) ?s))
        = file_sel (form_step (FileChange [b_pdf]) ?s)"
    using response_applied_after_file_change
      [of ?s ?req "[]" 200 "[b_pdf]" "Some assessment_of_a"] sent code
    by blast
  moreover have "map cv_file (inflight ?s) = [a_pdf]"
    using sent by simp
  ultimately show ?thesis
    using changed by (simp only: simp_thms)
qed

text \<open>
  Claim C9. In every state the form reaches, at most one request is in flight, and one is
  in flight exactly while the form is loading. While it is loading, the submit button is
  disabled and submitting the form changes nothing: no second request, no change of state.
\<close>

theorem at_most_one_in_flight:
  "length (inflight (form_run evs initial_form)) \<le> 1
   \<and> isLoading (form_run evs initial_form) = (inflight (form_run evs initial_form) \<noteq> [])
   \<and> (isLoading (form_run evs initial_form) \<longrightarrow>
        form_step SubmitForm (form_run evs initial_form) = form_run evs initial_form
        \<and> form_run (evs @ [SubmitForm]) initial_form = form_run evs initial_form)"
proof -
  have "form_inv (form_run evs initial_form)"
    by (rule form_inv_reachable)
  then show ?thesis
    by (simp add: form_inv_def form_run_snoc)
qed

theorem at_most_one_in_flight_witness:
  "isLoading (form_run [FileChange [\<lparr>name = ''a.pdf'', content = ''A''\<rparr>], SubmitForm] initial_form)
   \<and> form_run [FileChange [\<lparr>name = ''a.pdf'', content = ''A''\<rparr>], SubmitForm, SubmitForm]
        initial_form
     = form_run [FileChange [\<lparr>name = ''a.pdf'', content = ''A''\<rparr>], SubmitForm] initial_form
   \<and> length (inflight
        (form_run [FileChange [\<lparr>name = ''a.pdf'', content = ''A''\<rparr>], SubmitForm, SubmitForm]
           initial_form)) = 1"
proof -
  let ?evs = "[FileChange [\<lparr>name = ''a.pdf'', content = ''A''\<rparr>], SubmitForm]"
  have loading: "isLoading (form_run ?evs initial_form)"
    by (simp add: form_run_def initial_form_def handleFileChange_def fileExt_def toLowerCase_def
        lower_char_def handleSubmit_begin_def)
  have same: "form_run (?evs @ [SubmitForm]) initial_form = form_run ?evs initial_form"
    using at_most_one_in_flight[of ?evs] loading by blast
  have "inflight (form_run ?evs initial_form) \<noteq> []"
    using at_most_one_in_flight[of ?evs] loading by blast
  moreover have "length (inflight (form_run ?evs initial_form)) \<le> 1"
    using at_most_one_in_flight[of ?evs] by blast
  ultimately have "length (inflight (form_run ?evs initial_form)) = 1"
    by (cases "inflight (form_run ?evs initial_form)") simp_all
  with loading same show ?thesis
    by simp
qed

text \<open>
  The guard of claim C9 is the disabled button alone: \<^verbatim>\<open>handleSubmit\<close> itself, run on a
  loading form, would send a second request.
\<close>

lemma handleSubmit_begin_unguarded:
  "file_sel s = Some f \<Longrightarrow>
     length (inflight (handleSubmit_begin s)) = Suc (length (inflight s))"
  by (simp add: handleSubmit_begin_def)

end
